theory Spec2Isabelle
  imports Main "HOL-Library.Word"
begin

unbundle bit_operations_syntax

section \<open>Data model\<close>

text \<open>
  Black_Hole_102.py works on three kinds of data.
  \<^item> Python \<open>bytes\<close>/\<open>bytearray\<close>: sequences of integers in \<open>range(256)\<close>, here lists of
    8-bit words.
  \<^item> Python \<open>str\<close>: sequences of code points, here lists of naturals (a code point is
    below \<open>0x110000\<close>). A \<open>str\<close> may hold lone surrogates (\<open>0xD800..0xDFFF\<close>), which have
    no UTF-8 encoding; a text without them is a \<open>unicode_text\<close>.
  \<^item> Python \<open>dict\<close> from \<open>str\<close> to \<open>int\<close>: an association list in insertion order with
    distinct keys, written with \<open>dict_setitem\<close> and read with \<open>map_of\<close>.
\<close>

type_synonym byte = "8 word"
type_synonym pystr = "nat list"
type_synonym pydict = "(pystr \<times> int) list"

datatype error = ValueError | UnicodeEncodeError

definition is_surrogate :: "nat \<Rightarrow> bool" where
  "is_surrogate c = (0xD800 \<le> c \<and> c \<le> 0xDFFF)"

definition unicode_text :: "pystr \<Rightarrow> bool" where
  "unicode_text s = list_all (\<lambda>c. c < 0x110000 \<and> \<not> is_surrogate c) s"

section \<open>Library functions the program calls\<close>

text \<open>
  The whitespace test of CPython (\<open>Py_UNICODE_ISSPACE\<close>), shared by \<open>str.isspace\<close>,
  \<open>str.strip\<close>, \<open>str.split\<close> and the classes \<open>\s\<close> and \<open>\S\<close> of \<open>re\<close> on \<open>str\<close> patterns.
\<close>

definition is_space :: "nat \<Rightarrow> bool" where
  "is_space c =
     ((0x09 \<le> c \<and> c \<le> 0x0D) \<or> (0x1C \<le> c \<and> c \<le> 0x20) \<or> c = 0x85 \<or> c = 0xA0
      \<or> c = 0x1680 \<or> (0x2000 \<le> c \<and> c \<le> 0x200A) \<or> c = 0x2028 \<or> c = 0x2029
      \<or> c = 0x202F \<or> c = 0x205F \<or> c = 0x3000)"

text \<open>\<open>token.isspace()\<close>: non-empty and whitespace only.\<close>

definition isspace :: "pystr \<Rightarrow> bool" where
  "isspace s = (s \<noteq> [] \<and> list_all is_space s)"

text \<open>\<open>line.strip()\<close> and \<open>str.split()\<close> without arguments.\<close>

definition strip :: "pystr \<Rightarrow> pystr" where
  "strip s = rev (dropWhile is_space (rev (dropWhile is_space s)))"

function split :: "pystr \<Rightarrow> pystr list" where
  "split s =
     (case dropWhile is_space s of
        [] \<Rightarrow> []
      | c # cs \<Rightarrow> (c # takeWhile (\<lambda>x. \<not> is_space x) cs)
                   # split (dropWhile (\<lambda>x. \<not> is_space x) cs))"
  by pat_completeness auto
termination
proof (relation "measure length")
  fix s :: pystr and c cs
  assume "dropWhile is_space s = c # cs"
  then have "length s \<ge> Suc (length cs)"
    by (metis length_Cons length_dropWhile_le)
  moreover have "length (dropWhile (\<lambda>x. \<not> is_space x) cs) \<le> length cs"
    by (rule length_dropWhile_le)
  ultimately show "(dropWhile (\<lambda>x. \<not> is_space x) cs, s) \<in> measure length"
    by simp
qed simp

declare split.simps [simp del]

text \<open>
  \<open>re.findall(r'\S+|\s+', text)\<close>: at each position the first alternative that matches
  is taken and extended greedily, so the text is cut into maximal runs of one class.
\<close>

function findall :: "pystr \<Rightarrow> pystr list" where
  "findall [] = []"
| "findall (c # cs) =
     (if \<not> is_space c
      then (c # takeWhile (\<lambda>x. \<not> is_space x) cs) # findall (dropWhile (\<lambda>x. \<not> is_space x) cs)
      else (c # takeWhile is_space cs) # findall (dropWhile is_space cs))"
  by pat_completeness auto
termination
  by (relation "measure length") (auto simp: length_dropWhile_le less_Suc_eq_le)

text \<open>
  UTF-8. \<open>utf8_char\<close> is the encoding of one code point that has one;
  \<open>s.encode('utf-8')\<close> raises \<open>UnicodeEncodeError\<close> on a lone surrogate and
  \<open>s.encode('utf-8', errors='ignore')\<close> leaves it out.
\<close>

definition utf8_char :: "nat \<Rightarrow> byte list" where
  "utf8_char c =
     (if c < 0x80 then [of_nat c]
      else if c < 0x800 then [of_nat (0xC0 + c div 64), of_nat (0x80 + c mod 64)]
      else if c < 0x10000 then
        [of_nat (0xE0 + c div 4096), of_nat (0x80 + c div 64 mod 64), of_nat (0x80 + c mod 64)]
      else
        [of_nat (0xF0 + c div 262144), of_nat (0x80 + c div 4096 mod 64),
         of_nat (0x80 + c div 64 mod 64), of_nat (0x80 + c mod 64)])"

definition encode_utf8 :: "pystr \<Rightarrow> error + byte list" where
  "encode_utf8 s =
     (if list_ex is_surrogate s then Inl UnicodeEncodeError
      else Inr (concat (map utf8_char s)))"

definition encode_utf8_ignore :: "pystr \<Rightarrow> byte list" where
  "encode_utf8_ignore s = concat (map utf8_char (filter (\<lambda>c. \<not> is_surrogate c) s))"

text \<open>
  \<open>b.decode('utf-8', errors='ignore')\<close>, after CPython's decoder: a well-formed sequence
  gives its code point; an invalid start byte is dropped; where a continuation byte is
  wrong (or would give an overlong form, a surrogate or a value above \<open>0x10FFFF\<close>) the
  bytes before it are dropped and decoding resumes at it; a sequence cut off by the end
  of the data is dropped.
\<close>

definition is_cont :: "byte \<Rightarrow> bool" where
  "is_cont b = (0x80 \<le> b \<and> b < 0xC0)"

fun decode_utf8_ignore :: "byte list \<Rightarrow> pystr" where
  "decode_utf8_ignore [] = []"
| "decode_utf8_ignore (b # bs) =
     (if b < 0x80 then unat b # decode_utf8_ignore bs
      else if b < 0xC2 then decode_utf8_ignore bs
      else if b < 0xE0 then
        (case bs of
           [] \<Rightarrow> []
         | b2 # r2 \<Rightarrow>
             if is_cont b2
             then ((unat b - 0xC0) * 64 + (unat b2 - 0x80)) # decode_utf8_ignore r2
             else decode_utf8_ignore (b2 # r2))
      else if b < 0xF0 then
        (case bs of
           [] \<Rightarrow> []
         | b2 # r2 \<Rightarrow>
             if \<not> is_cont b2 \<or> (if b2 < 0xA0 then b = 0xE0 else b = 0xED)
             then decode_utf8_ignore (b2 # r2)
             else (case r2 of
                     [] \<Rightarrow> []
                   | b3 # r3 \<Rightarrow>
                       if is_cont b3
                       then ((unat b - 0xE0) * 4096 + (unat b2 - 0x80) * 64 + (unat b3 - 0x80))
                            # decode_utf8_ignore r3
                       else decode_utf8_ignore (b3 # r3)))
      else if b < 0xF5 then
        (case bs of
           [] \<Rightarrow> []
         | b2 # r2 \<Rightarrow>
             if \<not> is_cont b2 \<or> (if b2 < 0x90 then b = 0xF0 else b = 0xF4)
             then decode_utf8_ignore (b2 # r2)
             else (case r2 of
                     [] \<Rightarrow> []
                   | b3 # r3 \<Rightarrow>
                       if \<not> is_cont b3 then decode_utf8_ignore (b3 # r3)
                       else (case r3 of
                               [] \<Rightarrow> []
                             | b4 # r4 \<Rightarrow>
                                 if is_cont b4
                                 then ((unat b - 0xF0) * 262144 + (unat b2 - 0x80) * 4096
                                       + (unat b3 - 0x80) * 64 + (unat b4 - 0x80))
                                      # decode_utf8_ignore r4
                                 else decode_utf8_ignore (b4 # r4))))
      else decode_utf8_ignore bs)"

text \<open>
  \<open>bytearray.append(n)\<close> raises \<open>ValueError\<close> unless \<open>n\<close> is in \<open>range(256)\<close>;
  \<open>data[a:b]\<close> is cut at the end of the data; \<open>d[k] = v\<close> keeps the position of a key
  that is already there.
\<close>

definition bytearray_append :: "byte list \<Rightarrow> int \<Rightarrow> error + byte list" where
  "bytearray_append result n =
     (if 0 \<le> n \<and> n < 256 then Inr (result @ [word_of_int n]) else Inl ValueError)"

definition slice :: "'a list \<Rightarrow> nat \<Rightarrow> nat \<Rightarrow> 'a list" where
  "slice xs a b = take (b - a) (drop a xs)"

fun dict_setitem :: "pystr \<Rightarrow> int \<Rightarrow> pydict \<Rightarrow> pydict" where
  "dict_setitem k v [] = [(k, v)]"
| "dict_setitem k v (p # ps) = (if fst p = k then (k, v) # ps else p # dict_setitem k v ps)"

section \<open>The program\<close>

subsection \<open>\<open>load_dictionary_from_file\<close>\<close>

text \<open>
  The file is the list of its lines, or \<open>None\<close> when opening or reading it raises (the
  function then prints the error and returns \<open>None\<close>). \<open>load_loop\<close> is the \<open>for\<close> loop over
  \<open>enumerate(f)\<close>, \<open>idx\<close> counting every line read.
\<close>

fun load_loop :: "nat \<Rightarrow> nat \<Rightarrow> pystr list \<Rightarrow> pydict \<Rightarrow> pydict" where
  "load_loop max_lines idx [] dictionary = dictionary"
| "load_loop max_lines idx (line # f) dictionary =
     (if idx \<ge> max_lines then dictionary
      else
        let parts = split (strip line) in
        if length parts > 0
        then load_loop max_lines (idx + 1) f (dict_setitem (parts ! 0) (int idx) dictionary)
        else load_loop max_lines (idx + 1) f dictionary)"

definition load_dictionary_from_file :: "pystr list option \<Rightarrow> nat \<Rightarrow> pydict option" where
  "load_dictionary_from_file file max_lines =
     (case file of
        None \<Rightarrow> None
      | Some f \<Rightarrow> Some (load_loop max_lines 0 f []))"

text \<open>The default \<open>max_lines=2**24\<close>, the only value the program calls it with.\<close>

definition default_max_lines :: nat where
  "default_max_lines = 2 ^ 24"

subsection \<open>\<open>int_to_3bytes\<close> and \<open>bytes3_to_int\<close>\<close>

definition int_to_3bytes :: "int \<Rightarrow> byte list" where
  "int_to_3bytes v =
     [word_of_int (drop_bit 16 v AND 0xFF), word_of_int (drop_bit 8 v AND 0xFF),
      word_of_int (v AND 0xFF)]"

text \<open>Called on a slice of three bytes only.\<close>

definition bytes3_to_int :: "byte list \<Rightarrow> int" where
  "bytes3_to_int b = push_bit 16 (uint (b ! 0)) OR push_bit 8 (uint (b ! 1)) OR uint (b ! 2)"

subsection \<open>\<open>compress_text_with_dictionary\<close>\<close>

text \<open>
  \<open>compress_loop\<close> is the \<open>for\<close> loop over the tokens, \<open>result\<close> the bytearray built so
  far. An exception leaves the loop and the function.
\<close>

fun compress_loop :: "pydict \<Rightarrow> pystr list \<Rightarrow> byte list \<Rightarrow> error + byte list" where
  "compress_loop dictionary [] result = Inr result"
| "compress_loop dictionary (token # tokens) result =
     (if isspace token then
        (case encode_utf8 token of
           Inl e \<Rightarrow> Inl e
         | Inr encoded \<Rightarrow>
             (case bytearray_append (result @ [2]) (int (length encoded)) of
                Inl e \<Rightarrow> Inl e
              | Inr result' \<Rightarrow> compress_loop dictionary tokens (result' @ encoded)))
      else
        (case map_of dictionary token of
           Some code \<Rightarrow> compress_loop dictionary tokens ((result @ [1]) @ int_to_3bytes code)
         | None \<Rightarrow>
             (let raw = encode_utf8_ignore token in
              case bytearray_append (result @ [0]) (int (length raw)) of
                Inl e \<Rightarrow> Inl e
              | Inr result' \<Rightarrow> compress_loop dictionary tokens (result' @ raw))))"

definition compress_text_with_dictionary :: "pystr \<Rightarrow> pydict \<Rightarrow> error + byte list" where
  "compress_text_with_dictionary text dictionary = compress_loop dictionary (findall text) []"

subsection \<open>\<open>decompress_text_with_dictionary\<close>\<close>

text \<open>\<open>{v: k for k, v in dictionary.items()}\<close>: a later item replaces an earlier one.\<close>

definition reverse_dict :: "pydict \<Rightarrow> (int \<rightharpoonup> pystr)" where
  "reverse_dict dictionary = fold (\<lambda>(k, v) m. m(v \<mapsto> k)) dictionary Map.empty"

text \<open>
  \<open>decode_loop\<close> is the \<open>while\<close> loop with cursor \<open>i\<close> and the list \<open>result\<close> of decoded
  pieces; \<open>None\<close> would be a loop that never ends, \<open>break\<close> and the end of the data give
  \<open>Some result\<close>. A tag other than 0, 1, 2 matches no branch, so only \<open>i += 1\<close> happens.
\<close>

partial_function (option) decode_loop ::
  "(int \<rightharpoonup> pystr) \<Rightarrow> byte list \<Rightarrow> nat \<Rightarrow> pystr list \<Rightarrow> pystr list option" where
  "decode_loop rd data i result =
     (if i < length data then
        (let flag = data ! i; i = i + 1 in
         if flag = 1 then
           (if i + 3 > length data then Some result
            else
              let code = bytes3_to_int (slice data i (i + 3));
                  word = (case rd code of Some w \<Rightarrow> w | None \<Rightarrow> [])
              in decode_loop rd data (i + 3) (result @ [word]))
         else if flag = 0 then
           (if i \<ge> length data then Some result
            else
              let len = unat (data ! i); i = i + 1;
                  word = decode_utf8_ignore (slice data i (i + len))
              in decode_loop rd data (i + len) (result @ [word]))
         else if flag = 2 then
           (if i \<ge> length data then Some result
            else
              let len = unat (data ! i); i = i + 1;
                  space = decode_utf8_ignore (slice data i (i + len))
              in decode_loop rd data (i + len) (result @ [space]))
         else decode_loop rd data i result)
      else Some result)"

declare decode_loop.simps [code]

definition decompress_text_with_dictionary :: "byte list \<Rightarrow> pydict \<Rightarrow> pystr option" where
  "decompress_text_with_dictionary data dictionary =
     map_option concat (decode_loop (reverse_dict dictionary) data 0 [])"

subsection \<open>\<open>transform_with_pattern\<close>\<close>

definition transform_with_pattern :: "byte list \<Rightarrow> byte list" where
  "transform_with_pattern data = map (\<lambda>b. b XOR 0xFF) data"

section \<open>Notions used to state the properties\<close>

text \<open>
  A byte sequence made of complete records of the wire format and nothing else: tag 1
  with its three id bytes, or tag 0 or 2 with a length byte \<open>L\<close> and \<open>L\<close> payload bytes.
  The end of such a sequence is a record boundary.
\<close>

function complete_records :: "byte list \<Rightarrow> bool" where
  "complete_records [] = True"
| "complete_records (tag # bs) =
     (if tag = 1 then 3 \<le> length bs \<and> complete_records (drop 3 bs)
      else if tag = 0 \<or> tag = 2 then
        (case bs of
           [] \<Rightarrow> False
         | l # p \<Rightarrow> unat l \<le> length p \<and> complete_records (drop (unat l) p))
      else False)"
  by pat_completeness auto
termination
  by (relation "measure length") auto

text \<open>The word a line of the word list contributes: \<open>parts[0]\<close> when \<open>len(parts) > 0\<close>.\<close>

definition first_field :: "pystr \<Rightarrow> pystr option" where
  "first_field line = (case split (strip line) of [] \<Rightarrow> None | w # ws \<Rightarrow> Some w)"

text \<open>
  The decoder as a function of the bytes from the cursor on: what the \<open>while\<close> loop
  appends to \<open>result\<close> (see \<open>decode_loop_eq\<close>).
\<close>

function decode_bytes :: "(int \<rightharpoonup> pystr) \<Rightarrow> byte list \<Rightarrow> pystr list" where
  "decode_bytes rd [] = []"
| "decode_bytes rd (flag # bs) =
     (if flag = 1 then
        (if length bs < 3 then []
         else (case rd (bytes3_to_int (take 3 bs)) of Some w \<Rightarrow> w | None \<Rightarrow> [])
              # decode_bytes rd (drop 3 bs))
      else if flag = 0 \<or> flag = 2 then
        (case bs of
           [] \<Rightarrow> []
         | l # p \<Rightarrow> decode_utf8_ignore (take (unat l) p) # decode_bytes rd (drop (unat l) p))
      else decode_bytes rd bs)"
  by pat_completeness auto
termination
  by (relation "measure (\<lambda>(rd, bs). length bs)") auto

text \<open>
  The record the \<open>for\<close> loop of \<open>compress_text_with_dictionary\<close> appends for one token, or
  the exception it raises (see \<open>compress_loop_step\<close>).
\<close>

definition token_record :: "pydict \<Rightarrow> pystr \<Rightarrow> error + byte list" where
  "token_record d t =
     (if isspace t \<or> map_of d t = None then
        (if length (encode_utf8_ignore t) < 256
         then Inr ((if isspace t then 2 else 0) # of_nat (length (encode_utf8_ignore t))
                   # encode_utf8_ignore t)
         else Inl ValueError)
      else Inr (1 # int_to_3bytes (the (map_of d t))))"

text \<open>
  The invariant of the loading loop after \<open>n\<close> lines: keys pairwise different, ids
  pairwise different, every id in \<open>0..<n\<close>.
\<close>

definition dict_inv :: "nat \<Rightarrow> pydict \<Rightarrow> bool" where
  "dict_inv n d = (distinct (map fst d) \<and> distinct (map snd d)
                   \<and> (\<forall>v \<in> snd ` set d. 0 \<le> v \<and> v < int n))"

section \<open>The decoder\<close>

subsection \<open>The loop as a function of the remaining bytes\<close>

lemma decode_loop_eq:
  "decode_loop rd data i result = Some (result @ decode_bytes rd (drop i data))"
proof (induction "length data - i" arbitrary: i result rule: less_induct)
  case less
  show ?case
  proof (cases "i < length data")
    case False
    then show ?thesis by (subst decode_loop.simps) simp
  next
    case True
    then have d: "drop i data = data ! i # drop (Suc i) data"
      by (simp add: Cons_nth_drop_Suc)
    have ih: "\<And>j r. i < j \<Longrightarrow> decode_loop rd data j r = Some (r @ decode_bytes rd (drop j data))"
      using less True by (metis diff_less_mono2)
    consider (one) "data ! i = 1" | (zero) "data ! i = 0" | (two) "data ! i = 2"
      | (other) "data ! i \<noteq> 1" "data ! i \<noteq> 0" "data ! i \<noteq> 2" by blast
    then show ?thesis
    proof cases
      case one
      show ?thesis
      proof (cases "Suc i + 3 > length data")
        case True
        then show ?thesis using \<open>i < length data\<close> one d
          by (subst decode_loop.simps) simp
      next
        case False
        then show ?thesis using \<open>i < length data\<close> one d
          by (subst decode_loop.simps) (simp add: ih slice_def Let_def)
      qed
    next
      case zero
      show ?thesis
      proof (cases "Suc i \<ge> length data")
        case True
        then show ?thesis using \<open>i < length data\<close> zero d
          by (subst decode_loop.simps) simp
      next
        case False
        then have d2: "drop (Suc i) data = data ! Suc i # drop (Suc (Suc i)) data"
          by (simp add: Cons_nth_drop_Suc)
        from False show ?thesis using \<open>i < length data\<close> zero d d2
          by (subst decode_loop.simps) (simp add: ih slice_def Let_def add.commute)
      qed
    next
      case two
      show ?thesis
      proof (cases "Suc i \<ge> length data")
        case True
        then show ?thesis using \<open>i < length data\<close> two d
          by (subst decode_loop.simps) simp
      next
        case False
        then have d2: "drop (Suc i) data = data ! Suc i # drop (Suc (Suc i)) data"
          by (simp add: Cons_nth_drop_Suc)
        from False show ?thesis using \<open>i < length data\<close> two d d2
          by (subst decode_loop.simps) (simp add: ih slice_def Let_def add.commute)
      qed
    next
      case other
      then show ?thesis using \<open>i < length data\<close> d
        by (subst decode_loop.simps) (simp add: ih)
    qed
  qed
qed

lemma decompress_eq:
  "decompress_text_with_dictionary data d = Some (concat (decode_bytes (reverse_dict d) data))"
  by (simp add: decompress_text_with_dictionary_def decode_loop_eq)

lemma decode_bytes_append:
  "complete_records pre \<Longrightarrow>
   decode_bytes rd (pre @ rest) = decode_bytes rd pre @ decode_bytes rd rest"
proof (induction pre rule: complete_records.induct)
  case 1
  then show ?case by simp
next
  case (2 tag bs)
  show ?case
  proof (cases "tag = 1")
    case True
    with 2 show ?thesis by simp
  next
    case False
    show ?thesis
    proof (cases "tag = 0 \<or> tag = 2")
      case True
      with 2 False obtain l p where bs: "bs = l # p" and len: "unat l \<le> length p"
        and cr: "complete_records (drop (unat l) p)"
        by (auto split: list.splits)
      from "2.IH"(2)[OF False True bs] cr
      have "decode_bytes rd (drop (unat l) p @ rest)
            = decode_bytes rd (drop (unat l) p) @ decode_bytes rd rest" by simp
      with True False bs len show ?thesis by auto
    next
      case f2: False
      with 2 False show ?thesis by simp
    qed
  qed
qed

lemma complete_records_append:
  "complete_records a \<Longrightarrow> complete_records b \<Longrightarrow> complete_records (a @ b)"
proof (induction a rule: complete_records.induct)
  case 1
  then show ?case by simp
next
  case (2 tag bs)
  show ?case
  proof (cases "tag = 1")
    case True
    with 2 show ?thesis by simp
  next
    case False
    with "2.prems" have t: "tag = 0 \<or> tag = 2" by (simp split: if_splits)
    with "2.prems" False obtain l p where bs: "bs = l # p" and len: "unat l \<le> length p"
      and cr: "complete_records (drop (unat l) p)"
      by (auto split: list.splits)
    from "2.IH"(2)[OF False t bs cr "2.prems"(2)] t False bs len show ?thesis by auto
  qed
qed

text \<open>
  C10. The decoder is total: for every byte sequence and every dictionary,
  \<open>decompress_text_with_dictionary\<close> returns a string, and so does the \<open>while\<close> loop from
  every cursor position and every list of pieces. (Each iteration moves the cursor forward
  by at least the tag byte; \<open>decode_loop_eq\<close> is proved by induction on the number of
  bytes from the cursor to the end.)
\<close>

theorem decoder_terminates:
  "(\<exists>text. decompress_text_with_dictionary data dictionary = Some text)
   \<and> (\<exists>pieces. decode_loop rd data i result = Some pieces)"
  by (simp add: decompress_eq decode_loop_eq)

text \<open>
  C9. Cutting a byte stream at a record boundary: when \<open>pre\<close> is made of complete
  records, decoding \<open>pre\<close> alone gives a string \<open>s\<close>, and decoding \<open>pre @ rest\<close> gives
  \<open>s\<close> followed by the decoding of \<open>rest\<close>; so the decoding of the prefix is a prefix of
  the full result. (By \<open>encoder_record_boundaries\<close> below, the encoder's output for the
  first tokens of a text is such a prefix of its output for the whole text.)
\<close>

theorem prefix_at_record_boundary:
  assumes "complete_records pre"
  shows "\<exists>s t. decompress_text_with_dictionary pre dictionary = Some s
           \<and> decompress_text_with_dictionary rest dictionary = Some t
           \<and> decompress_text_with_dictionary (pre @ rest) dictionary = Some (s @ t)"
  using assms by (simp add: decompress_eq decode_bytes_append)

theorem prefix_at_record_boundary_witness:
  "\<exists>s t. decompress_text_with_dictionary [1, 0, 0, 0, 2, 1, 0x20] [([0x74, 0x68, 0x65], 0)]
            = Some s
         \<and> decompress_text_with_dictionary [0, 2, 0x61, 0x62] [([0x74, 0x68, 0x65], 0)] = Some t
         \<and> decompress_text_with_dictionary ([1, 0, 0, 0, 2, 1, 0x20] @ [0, 2, 0x61, 0x62])
              [([0x74, 0x68, 0x65], 0)] = Some (s @ t)"
proof -
  have h: "complete_records [1, 0, 0, 0, 2, 1, 0x20]" by simp
  show ?thesis by (rule prefix_at_record_boundary[OF h])
qed

text \<open>
  C4 (amended). A tag byte other than 0, 1 and 2 does not stop the decoder: no branch of
  the loop matches, so that one byte is skipped and decoding goes on with the byte after
  it. After complete records \<open>pre\<close>, the result is the decoding of \<open>pre\<close> followed by the
  decoding of the bytes after the unknown tag.
\<close>

theorem unknown_tag_skipped:
  assumes "complete_records pre" and "tag \<noteq> 0" and "tag \<noteq> 1" and "tag \<noteq> 2"
  shows "\<exists>s t. decompress_text_with_dictionary pre dictionary = Some s
           \<and> decompress_text_with_dictionary rest dictionary = Some t
           \<and> decompress_text_with_dictionary (pre @ tag # rest) dictionary = Some (s @ t)"
  using assms by (simp add: decompress_eq decode_bytes_append)

theorem unknown_tag_skipped_witness:
  "\<exists>s t. decompress_text_with_dictionary [2, 1, 0x20] [] = Some s
         \<and> decompress_text_with_dictionary [0, 1, 0x61] [] = Some t
         \<and> decompress_text_with_dictionary ([2, 1, 0x20] @ 7 # [0, 1, 0x61]) [] = Some (s @ t)"
proof -
  have h: "complete_records [2, 1, 0x20]" by simp
  have t: "(7::byte) \<noteq> 0" "(7::byte) \<noteq> 1" "(7::byte) \<noteq> 2" by simp_all
  show ?thesis by (rule unknown_tag_skipped[OF h t])
qed

text \<open>
  The claim as stated fails: in \<open>[3, 2, 1, 0x20]\<close> the unknown tag 3 comes first, and
  the result is not empty but the space of the record after it.
\<close>

theorem unknown_tag_counterexample:
  "decompress_text_with_dictionary [3, 2, 1, 0x20] [] = Some [0x20]
   \<and> decompress_text_with_dictionary [3, 2, 1, 0x20] [] \<noteq> Some []"
  by (simp add: decompress_eq)

text \<open>
  C5 (amended). A stream that ends inside a record is not an error. After complete
  records \<open>pre\<close> decoding to \<open>s\<close>: a tag 1 with fewer than three id bytes, and a tag 0 or
  2 without its length byte, add nothing, the result is \<open>s\<close>; a tag 0 or 2 with its
  length byte \<open>l\<close> and fewer than \<open>l\<close> payload bytes adds the decoding of the payload
  bytes that are there (the slice \<open>data[i:i+length]\<close> is cut at the end of the data).
\<close>

theorem truncated_stream:
  assumes "complete_records pre"
  shows "\<exists>s. decompress_text_with_dictionary pre dictionary = Some s
           \<and> (length ids < 3 \<longrightarrow>
                decompress_text_with_dictionary (pre @ 1 # ids) dictionary = Some s)
           \<and> (tag = 0 \<or> tag = 2 \<longrightarrow>
                decompress_text_with_dictionary (pre @ [tag]) dictionary = Some s)
           \<and> (tag = 0 \<or> tag = 2 \<longrightarrow> length payload < unat l \<longrightarrow>
                decompress_text_with_dictionary (pre @ tag # l # payload) dictionary
                  = Some (s @ decode_utf8_ignore payload))"
  using assms by (auto simp add: decompress_eq decode_bytes_append)

theorem truncated_stream_witness:
  "decompress_text_with_dictionary [2, 1, 0x20] [] = Some [0x20]
   \<and> decompress_text_with_dictionary ([2, 1, 0x20] @ 1 # [0, 0]) [] = Some [0x20]
   \<and> decompress_text_with_dictionary ([2, 1, 0x20] @ [0]) [] = Some [0x20]
   \<and> decompress_text_with_dictionary ([2, 1, 0x20] @ 0 # 5 # [0x61, 0x62]) []
       = Some ([0x20] @ decode_utf8_ignore [0x61, 0x62])"
proof -
  have h: "complete_records [2, 1, 0x20]" by simp
  from truncated_stream[OF h, of "[]" "[0, 0]" 0 "[0x61, 0x62]" 5]
  obtain s where s: "decompress_text_with_dictionary [2, 1, 0x20] [] = Some s"
    and a: "length [0::byte, 0] < 3 \<longrightarrow>
            decompress_text_with_dictionary ([2, 1, 0x20] @ 1 # [0, 0]) [] = Some s"
    and b: "(0::byte) = 0 \<or> (0::byte) = 2 \<longrightarrow>
            decompress_text_with_dictionary ([2, 1, 0x20] @ [0]) [] = Some s"
    and c: "(0::byte) = 0 \<or> (0::byte) = 2 \<longrightarrow> length [0x61::byte, 0x62] < unat (5::byte) \<longrightarrow>
            decompress_text_with_dictionary ([2, 1, 0x20] @ 0 # 5 # [0x61, 0x62]) []
              = Some (s @ decode_utf8_ignore [0x61, 0x62])"
    by blast
  have "decompress_text_with_dictionary [2, 1, 0x20] [] = Some [0x20]"
    by (simp add: decompress_eq)
  with s have "s = [0x20]" by simp
  with s a b c show ?thesis by simp
qed

text \<open>
  The claim as stated fails: \<open>[0, 5, 0x61, 0x62]\<close> announces five payload bytes and
  has two; the result is not empty but \<open>ab\<close>.
\<close>

theorem truncated_payload_counterexample:
  "decompress_text_with_dictionary [0, 5, 0x61, 0x62] [] = Some [0x61, 0x62]
   \<and> decompress_text_with_dictionary [0, 5, 0x61, 0x62] [] \<noteq> Some []"
  by (simp add: decompress_eq)

subsection \<open>The reversed dictionary\<close>

lemma reverse_dict_snoc:
  "reverse_dict (d @ [(k, v)]) = (reverse_dict d)(v \<mapsto> k)"
  by (simp add: reverse_dict_def)

lemma reverse_dict_absent:
  "v \<notin> snd ` set d \<Longrightarrow> reverse_dict d v = None"
proof (induction d rule: rev_induct)
  case Nil
  then show ?case by (simp add: reverse_dict_def)
next
  case (snoc p d)
  obtain k' v' where p: "p = (k', v')" by (cases p)
  with snoc show ?case by (simp add: reverse_dict_snoc)
qed

lemma reverse_dict_present:
  "distinct (map snd d) \<Longrightarrow> (k, v) \<in> set d \<Longrightarrow> reverse_dict d v = Some k"
proof (induction d rule: rev_induct)
  case Nil
  then show ?case by simp
next
  case (snoc p d)
  obtain k' v' where p: "p = (k', v')" by (cases p)
  show ?case
  proof (cases "p = (k, v)")
    case True
    then show ?thesis by (simp add: reverse_dict_snoc)
  next
    case False
    with snoc.prems have mem: "(k, v) \<in> set d" by simp
    then have "v \<in> snd ` set d" by force
    with snoc.prems p have "v' \<noteq> v" by auto
    moreover have "reverse_dict d v = Some k" using snoc mem by simp
    ultimately show ?thesis using p by (simp add: reverse_dict_snoc)
  qed
qed

lemma reverse_dict_inverse:
  "distinct (map snd d) \<Longrightarrow> map_of d k = Some v \<Longrightarrow> reverse_dict d v = Some k"
  by (simp add: reverse_dict_present map_of_SomeD)

text \<open>
  C6. A tag-1 record whose id is the id of no word of the dictionary adds the empty
  string, and decoding goes on: after complete records \<open>pre\<close>, the result is the decoding
  of \<open>pre\<close> followed by the decoding of the bytes after the record.
\<close>

theorem unknown_id_empty:
  assumes "complete_records pre"
    and "bytes3_to_int [b0, b1, b2] \<notin> snd ` set dictionary"
  shows "\<exists>s t. decompress_text_with_dictionary pre dictionary = Some s
           \<and> decompress_text_with_dictionary rest dictionary = Some t
           \<and> decompress_text_with_dictionary (pre @ [1, b0, b1, b2] @ rest) dictionary
               = Some (s @ t)"
  using assms by (simp add: decompress_eq decode_bytes_append reverse_dict_absent)

theorem unknown_id_empty_witness:
  "\<exists>s t. decompress_text_with_dictionary [2, 1, 0x20] [([0x74, 0x68, 0x65], 0)] = Some s
         \<and> decompress_text_with_dictionary [0, 1, 0x61] [([0x74, 0x68, 0x65], 0)] = Some t
         \<and> decompress_text_with_dictionary ([2, 1, 0x20] @ [1, 0, 0, 5] @ [0, 1, 0x61])
              [([0x74, 0x68, 0x65], 0)] = Some (s @ t)"
proof -
  have h: "complete_records [2, 1, 0x20]" by simp
  have a: "bytes3_to_int [0, 0, 5] \<notin> snd ` set [([0x74, 0x68, 0x65 :: nat], 0 :: int)]"
    by (simp add: bytes3_to_int_def)
  show ?thesis by (rule unknown_id_empty[OF h a])
qed

section \<open>The byte transform\<close>

text \<open>
  C8. The byte transform applied before compression and after decompression is an
  involution: applying \<open>transform_with_pattern\<close> twice gives back the byte sequence.
\<close>

theorem transform_with_pattern_involution:
  "transform_with_pattern (transform_with_pattern data) = data"
  by (induction data) (simp_all add: transform_with_pattern_def xor.assoc)

section \<open>The tokenizer\<close>

lemma findall_concat: "concat (findall s) = s"
  by (induction s rule: findall.induct) simp_all

lemma findall_tokens:
  "t \<in> set (findall s) \<Longrightarrow> t \<noteq> [] \<and> (list_all is_space t \<or> list_all (\<lambda>c. \<not> is_space c) t)"
proof (induction s arbitrary: t rule: findall.induct)
  case 1
  then show ?case by simp
next
  case (2 c cs)
  show ?case
  proof (cases "is_space c")
    case True
    with 2 show ?thesis by (auto simp: list_all_iff dest: set_takeWhileD)
  next
    case False
    with 2 show ?thesis by (auto simp: list_all_iff dest: set_takeWhileD)
  qed
qed

lemma findall_subset: "t \<in> set (findall s) \<Longrightarrow> set t \<subseteq> set s"
proof -
  assume "t \<in> set (findall s)"
  then have "set t \<subseteq> set (concat (findall s))" by auto
  then show ?thesis by (simp add: findall_concat)
qed

text \<open>
  C7. \<open>re.findall(r'\S+|\s+', text)\<close> gives a list of tokens, none empty, each
  whitespace only or free of whitespace, whose concatenation is the text; the empty text
  gives the empty list.
\<close>

theorem tokenizer_partition:
  "(\<forall>t \<in> set (findall s). t \<noteq> [] \<and> (list_all is_space t \<or> list_all (\<lambda>c. \<not> is_space c) t))
   \<and> concat (findall s) = s \<and> findall [] = []"
  using findall_tokens[of _ s] by (simp add: findall_concat)

theorem tokenizer_partition_witness:
  "list_all (\<lambda>t. t \<noteq> [] \<and> (list_all is_space t \<or> list_all (\<lambda>c. \<not> is_space c) t))
     (findall [0x61, 0x62, 0x20, 0x0A, 0x63])
   \<and> findall [0x61, 0x62, 0x20, 0x0A, 0x63] = [[0x61, 0x62], [0x20, 0x0A], [0x63]]"
  using tokenizer_partition[of "[0x61, 0x62, 0x20, 0x0A, 0x63]"]
  by (simp add: is_space_def)

section \<open>The dictionary\<close>

lemma map_of_dict_setitem:
  "map_of (dict_setitem k v d) = (map_of d)(k \<mapsto> v)"
  by (induction d) (auto simp: fun_eq_iff)

lemma keys_dict_setitem:
  "fst ` set (dict_setitem k v d) = insert k (fst ` set d)"
  by (induction d) auto

lemma distinct_keys_dict_setitem:
  "distinct (map fst d) \<Longrightarrow> distinct (map fst (dict_setitem k v d))"
  by (induction d) (auto simp: keys_dict_setitem)

lemma values_dict_setitem:
  "snd ` set (dict_setitem k v d) \<subseteq> insert v (snd ` set d)"
  by (induction d) auto

lemma distinct_values_dict_setitem:
  "distinct (map snd d) \<Longrightarrow> v \<notin> snd ` set d \<Longrightarrow> distinct (map snd (dict_setitem k v d))"
proof (induction d)
  case Nil
  then show ?case by simp
next
  case (Cons p d)
  show ?case
  proof (cases "fst p = k")
    case True
    with Cons.prems show ?thesis by auto
  next
    case False
    have "snd p \<notin> snd ` set (dict_setitem k v d)"
      using values_dict_setitem[of k v d] Cons.prems by auto
    with False Cons show ?thesis by auto
  qed
qed

lemma dict_inv_mono: "dict_inv n d \<Longrightarrow> n \<le> m \<Longrightarrow> dict_inv m d"
  by (fastforce simp: dict_inv_def)

lemma dict_inv_setitem:
  assumes "dict_inv n d"
  shows "dict_inv (Suc n) (dict_setitem k (int n) d)"
proof -
  have fresh: "int n \<notin> snd ` set d" using assms by (auto simp: dict_inv_def)
  have "\<forall>v \<in> snd ` set (dict_setitem k (int n) d). 0 \<le> v \<and> v < int (Suc n)"
    using values_dict_setitem[of k "int n" d] assms by (fastforce simp: dict_inv_def)
  with assms fresh show ?thesis
    by (simp add: dict_inv_def distinct_keys_dict_setitem distinct_values_dict_setitem)
qed

lemma load_loop_inv:
  "dict_inv idx d \<Longrightarrow> idx \<le> max_lines \<Longrightarrow> dict_inv max_lines (load_loop max_lines idx f d)"
proof (induction f arbitrary: idx d)
  case Nil
  then show ?case by (simp add: dict_inv_mono)
next
  case (Cons line f)
  show ?case
  proof (cases "idx \<ge> max_lines")
    case True
    with Cons.prems show ?thesis by (simp add: dict_inv_mono)
  next
    case False
    then have le: "Suc idx \<le> max_lines" by simp
    have a: "dict_inv (Suc idx) (dict_setitem k (int idx) d)" for k
      using Cons.prems(1) by (rule dict_inv_setitem)
    have b: "dict_inv (Suc idx) d" using Cons.prems(1) by (rule dict_inv_mono) simp
    from False show ?thesis
      using Cons.IH[OF a le] Cons.IH[OF b le] by (simp add: Let_def)
  qed
qed

lemma load_loop_unchanged:
  "(\<forall>j. j < length f \<and> idx + j < max_lines \<longrightarrow> first_field (f ! j) \<noteq> Some w) \<Longrightarrow>
   map_of (load_loop max_lines idx f d) w = map_of d w"
proof (induction f arbitrary: idx d)
  case Nil
  then show ?case by simp
next
  case (Cons line f)
  show ?case
  proof (cases "idx \<ge> max_lines")
    case True
    then show ?thesis by simp
  next
    case False
    have here: "first_field line \<noteq> Some w"
      using Cons.prems[rule_format, of 0] False by simp
    have later: "\<forall>j. j < length f \<and> Suc idx + j < max_lines \<longrightarrow> first_field (f ! j) \<noteq> Some w"
    proof (intro allI impI)
      fix j assume "j < length f \<and> Suc idx + j < max_lines"
      then have "Suc j < length (line # f) \<and> idx + Suc j < max_lines" by simp
      with Cons.prems have "first_field ((line # f) ! Suc j) \<noteq> Some w" by blast
      then show "first_field (f ! j) \<noteq> Some w" by simp
    qed
    have ih: "map_of (load_loop max_lines (Suc idx) f d') w = map_of d' w" for d'
      using Cons.IH[OF later] .
    show ?thesis
    proof (cases "split (strip line)")
      case Nil
      with False ih show ?thesis by (simp add: Let_def)
    next
      case (Cons p ps)
      with here have "p \<noteq> w" by (simp add: first_field_def)
      with False ih Cons show ?thesis by (simp add: Let_def map_of_dict_setitem)
    qed
  qed
qed

lemma load_loop_last:
  "j < length f \<Longrightarrow> idx + j < max_lines \<Longrightarrow> first_field (f ! j) = Some w \<Longrightarrow>
   (\<forall>k. j < k \<and> k < length f \<and> idx + k < max_lines \<longrightarrow> first_field (f ! k) \<noteq> Some w) \<Longrightarrow>
   map_of (load_loop max_lines idx f d) w = Some (int (idx + j))"
proof (induction f arbitrary: idx d j)
  case Nil
  then show ?case by simp
next
  case (Cons line f)
  have run: "\<not> idx \<ge> max_lines" using Cons.prems(2) by simp
  show ?case
  proof (cases j)
    case 0
    with Cons.prems obtain ps where sp: "split (strip line) = w # ps"
      by (auto simp: first_field_def split: list.splits)
    have later: "\<forall>k. k < length f \<and> Suc idx + k < max_lines \<longrightarrow> first_field (f ! k) \<noteq> Some w"
    proof (intro allI impI)
      fix k assume "k < length f \<and> Suc idx + k < max_lines"
      then have "j < Suc k \<and> Suc k < length (line # f) \<and> idx + Suc k < max_lines"
        using 0 by simp
      with Cons.prems(4) have "first_field ((line # f) ! Suc k) \<noteq> Some w" by blast
      then show "first_field (f ! k) \<noteq> Some w" by simp
    qed
    show ?thesis using run sp 0 load_loop_unchanged[OF later]
      by (simp add: Let_def map_of_dict_setitem)
  next
    case (Suc j')
    have 1: "j' < length f" using Cons.prems(1) Suc by simp
    have 2: "Suc idx + j' < max_lines" using Cons.prems(2) Suc by simp
    have 3: "first_field (f ! j') = Some w" using Cons.prems(3) Suc by simp
    have 4: "\<forall>k. j' < k \<and> k < length f \<and> Suc idx + k < max_lines \<longrightarrow> first_field (f ! k) \<noteq> Some w"
    proof (intro allI impI)
      fix k assume "j' < k \<and> k < length f \<and> Suc idx + k < max_lines"
      then have "j < Suc k \<and> Suc k < length (line # f) \<and> idx + Suc k < max_lines"
        using Suc by simp
      with Cons.prems(4) have "first_field ((line # f) ! Suc k) \<noteq> Some w" by blast
      then show "first_field (f ! k) \<noteq> Some w" by simp
    qed
    have ih: "map_of (load_loop max_lines (Suc idx) f d') w = Some (int (Suc idx + j'))" for d'
      using Cons.IH[OF 1 2 3 4] .
    show ?thesis using run Suc ih by (simp add: Let_def)
  qed
qed

text \<open>
  C3 (amended). \<open>dictionary[parts[0]] = idx\<close> overwrites: a word that is the first field
  of several lines gets the index of the last of them (among the lines read, those below
  \<open>max_lines\<close>), not of the first.
\<close>

theorem last_occurrence_wins:
  assumes "load_dictionary_from_file (Some f) max_lines = Some dictionary"
    and "i < length f" and "i < max_lines" and "first_field (f ! i) = Some w"
    and "\<forall>j. i < j \<and> j < length f \<and> j < max_lines \<longrightarrow> first_field (f ! j) \<noteq> Some w"
  shows "map_of dictionary w = Some (int i)"
  using assms load_loop_last[of i f 0 max_lines w "[]"]
  by (simp add: load_dictionary_from_file_def)

theorem last_occurrence_wins_witness:
  "map_of [([0x61], 2), ([0x62], 1)] [0x61] = Some (2::int)"
proof -
  have h1: "load_dictionary_from_file (Some [[0x61, 0x0A], [0x62, 0x0A], [0x61, 0x0A]])
              default_max_lines = Some [([0x61], 2), ([0x62], 1)]"
    by (simp add: load_dictionary_from_file_def default_max_lines_def strip_def split.simps
          is_space_def)
  have h2: "2 < length [[0x61, 0x0A], [0x62, 0x0A], [0x61, 0x0A :: nat]]" by simp
  have h3: "2 < default_max_lines" by (simp add: default_max_lines_def)
  have h4: "first_field ([[0x61, 0x0A], [0x62, 0x0A], [0x61, 0x0A]] ! 2) = Some [0x61]"
    by (simp add: first_field_def strip_def split.simps is_space_def)
  have h5: "\<forall>j. 2 < j \<and> j < length [[0x61, 0x0A], [0x62, 0x0A], [0x61, 0x0A :: nat]]
                \<and> j < default_max_lines
              \<longrightarrow> first_field ([[0x61, 0x0A], [0x62, 0x0A], [0x61, 0x0A]] ! j) \<noteq> Some [0x61]"
    by auto
  from last_occurrence_wins[OF h1 h2 h3 h4 h5] show ?thesis by simp
qed

text \<open>
  The claim as stated fails: with the lines \<open>a\<close>, \<open>b\<close>, \<open>a\<close> the word \<open>a\<close> gets id 2,
  not the id 0 of its first occurrence.
\<close>

theorem first_occurrence_counterexample:
  "load_dictionary_from_file (Some [[0x61, 0x0A], [0x62, 0x0A], [0x61, 0x0A]]) default_max_lines
     = Some [([0x61], 2), ([0x62], 1)]
   \<and> map_of [([0x61], 2), ([0x62], 1)] [0x61 :: nat] \<noteq> Some (0 :: int)"
  by (simp add: load_dictionary_from_file_def default_max_lines_def strip_def split.simps
        is_space_def)

section \<open>UTF-8\<close>

lemma byte_less_iff: "((a::byte) < b) = (unat a < unat b)"
  by (rule word_less_nat_alt)

lemma byte_le_iff: "((a::byte) \<le> b) = (unat a \<le> unat b)"
  by (rule word_le_nat_alt)

lemma byte_eq_iff: "((a::byte) = b) = (unat a = unat b)"
  by (rule word_unat_eq_iff)

lemma unat_byte: "n < 256 \<Longrightarrow> unat (of_nat n :: byte) = n"
  by (simp add: unat_of_nat)

lemma decode_seq1:
  assumes "unat b1 < 0x80"
  shows "decode_utf8_ignore (b1 # bs) = unat b1 # decode_utf8_ignore bs"
  using assms by (simp add: byte_less_iff)

lemma decode_seq2:
  assumes "0xC2 \<le> unat b1" "unat b1 < 0xE0" "0x80 \<le> unat b2" "unat b2 < 0xC0"
  shows "decode_utf8_ignore (b1 # b2 # bs)
         = ((unat b1 - 0xC0) * 64 + (unat b2 - 0x80)) # decode_utf8_ignore bs"
  using assms by (simp add: byte_less_iff byte_le_iff is_cont_def)

lemma decode_seq3:
  assumes "0xE0 \<le> unat b1" "unat b1 < 0xF0" "0x80 \<le> unat b2" "unat b2 < 0xC0"
    "0x80 \<le> unat b3" "unat b3 < 0xC0"
    "unat b2 < 0xA0 \<Longrightarrow> unat b1 \<noteq> 0xE0" "\<not> unat b2 < 0xA0 \<Longrightarrow> unat b1 \<noteq> 0xED"
  shows "decode_utf8_ignore (b1 # b2 # b3 # bs)
         = ((unat b1 - 0xE0) * 4096 + (unat b2 - 0x80) * 64 + (unat b3 - 0x80))
           # decode_utf8_ignore bs"
proof (cases "unat b2 < 0xA0")
  case True
  with assms show ?thesis
    by (simp add: byte_less_iff byte_le_iff byte_eq_iff is_cont_def)
next
  case False
  with assms show ?thesis
    by (simp add: byte_less_iff byte_le_iff byte_eq_iff is_cont_def)
qed

lemma decode_seq4:
  assumes "0xF0 \<le> unat b1" "unat b1 < 0xF5" "0x80 \<le> unat b2" "unat b2 < 0xC0"
    "0x80 \<le> unat b3" "unat b3 < 0xC0" "0x80 \<le> unat b4" "unat b4 < 0xC0"
    "unat b2 < 0x90 \<Longrightarrow> unat b1 \<noteq> 0xF0" "\<not> unat b2 < 0x90 \<Longrightarrow> unat b1 \<noteq> 0xF4"
  shows "decode_utf8_ignore (b1 # b2 # b3 # b4 # bs)
         = ((unat b1 - 0xF0) * 262144 + (unat b2 - 0x80) * 4096 + (unat b3 - 0x80) * 64
            + (unat b4 - 0x80)) # decode_utf8_ignore bs"
proof (cases "unat b2 < 0x90")
  case True
  with assms show ?thesis
    by (simp add: byte_less_iff byte_le_iff byte_eq_iff is_cont_def)
next
  case False
  with assms show ?thesis
    by (simp add: byte_less_iff byte_le_iff byte_eq_iff is_cont_def)
qed

lemma digits3:
  "(c::nat) = c div 4096 * 4096 + c div 64 mod 64 * 64 + c mod 64"
proof -
  have a: "c div 4096 = c div 64 div 64" by (simp add: div_mult2_eq[symmetric])
  have b: "c div 64 = c div 64 div 64 * 64 + c div 64 mod 64" by simp
  have "c = c div 64 * 64 + c mod 64" by simp
  also have "\<dots> = (c div 4096 * 64 + c div 64 mod 64) * 64 + c mod 64"
    using a b by simp
  also have "\<dots> = c div 4096 * 4096 + c div 64 mod 64 * 64 + c mod 64"
    by (simp add: algebra_simps)
  finally show ?thesis .
qed

lemma digits4:
  "(c::nat) = c div 262144 * 262144 + c div 4096 mod 64 * 4096 + c div 64 mod 64 * 64 + c mod 64"
proof -
  have a: "c div 262144 = c div 4096 div 64" by (simp add: div_mult2_eq[symmetric])
  have b: "c div 4096 = c div 4096 div 64 * 64 + c div 4096 mod 64" by simp
  have "c = c div 4096 * 4096 + c div 64 mod 64 * 64 + c mod 64" by (rule digits3)
  also have "\<dots> = (c div 262144 * 64 + c div 4096 mod 64) * 4096 + c div 64 mod 64 * 64 + c mod 64"
    using a b by simp
  also have "\<dots> = c div 262144 * 262144 + c div 4096 mod 64 * 4096 + c div 64 mod 64 * 64 + c mod 64"
    by (simp add: algebra_simps)
  finally show ?thesis .
qed

lemma decode_utf8_char1:
  assumes "c < 0x80"
  shows "decode_utf8_ignore (utf8_char c @ bs) = c # decode_utf8_ignore bs"
proof -
  have u: "unat (of_nat c :: byte) = c" using assms by (simp add: unat_byte)
  have "decode_utf8_ignore (of_nat c # bs) = unat (of_nat c :: byte) # decode_utf8_ignore bs"
    by (rule decode_seq1) (simp add: u assms)
  then show ?thesis using assms by (simp add: utf8_char_def u)
qed

lemma decode_utf8_char2:
  assumes "0x80 \<le> c" "c < 0x800"
  shows "decode_utf8_ignore (utf8_char c @ bs) = c # decode_utf8_ignore bs"
proof -
  define q s where "q = c div 64" and "s = c mod 64"
  have c: "c = q * 64 + s" and s: "s < 64" unfolding q_def s_def by simp_all
  define n1 n2 where "n1 = 0xC0 + q" and "n2 = 0x80 + s"
  have r: "0xC2 \<le> n1" "n1 < 0xE0" "0x80 \<le> n2" "n2 < 0xC0"
    using assms c s unfolding n1_def n2_def by linarith+
  have u: "unat (of_nat n1 :: byte) = n1" "unat (of_nat n2 :: byte) = n2"
    using r by (simp_all add: unat_byte)
  have v: "(n1 - 0xC0) * 64 + (n2 - 0x80) = c"
    unfolding n1_def n2_def using c by simp
  have e: "utf8_char c = [of_nat n1, of_nat n2]"
    using assms unfolding n1_def n2_def q_def s_def by (simp add: utf8_char_def)
  have "decode_utf8_ignore (of_nat n1 # of_nat n2 # bs)
        = ((unat (of_nat n1 :: byte) - 0xC0) * 64 + (unat (of_nat n2 :: byte) - 0x80))
          # decode_utf8_ignore bs"
    by (rule decode_seq2) (simp_all add: u r)
  then show ?thesis by (simp add: e u v)
qed

lemma decode_utf8_char3:
  assumes "0x800 \<le> c" "c < 0x10000" "\<not> is_surrogate c"
  shows "decode_utf8_ignore (utf8_char c @ bs) = c # decode_utf8_ignore bs"
proof -
  define q r s where "q = c div 4096" and "r = c div 64 mod 64" and "s = c mod 64"
  have c: "c = q * 4096 + r * 64 + s" and rs: "r < 64" "s < 64"
    unfolding q_def r_def s_def by (rule digits3) simp_all
  define n1 n2 n3 where "n1 = 0xE0 + q" and "n2 = 0x80 + r" and "n3 = 0x80 + s"
  have b: "0xE0 \<le> n1" "n1 < 0xF0" "0x80 \<le> n2" "n2 < 0xC0" "0x80 \<le> n3" "n3 < 0xC0"
    using assms c rs unfolding n1_def n2_def n3_def by linarith+
  have g: "n2 < 0xA0 \<Longrightarrow> n1 \<noteq> 0xE0" "\<not> n2 < 0xA0 \<Longrightarrow> n1 \<noteq> 0xED"
    using assms c rs unfolding n1_def n2_def is_surrogate_def by linarith+
  have u: "unat (of_nat n1 :: byte) = n1" "unat (of_nat n2 :: byte) = n2"
    "unat (of_nat n3 :: byte) = n3"
    using b by (simp_all add: unat_byte)
  have v: "(n1 - 0xE0) * 4096 + (n2 - 0x80) * 64 + (n3 - 0x80) = c"
    unfolding n1_def n2_def n3_def using c by simp
  have e: "utf8_char c = [of_nat n1, of_nat n2, of_nat n3]"
    using assms unfolding n1_def n2_def n3_def q_def r_def s_def by (simp add: utf8_char_def)
  have "decode_utf8_ignore (of_nat n1 # of_nat n2 # of_nat n3 # bs)
        = ((unat (of_nat n1 :: byte) - 0xE0) * 4096 + (unat (of_nat n2 :: byte) - 0x80) * 64
           + (unat (of_nat n3 :: byte) - 0x80)) # decode_utf8_ignore bs"
    by (rule decode_seq3) (simp_all add: u b g)
  then show ?thesis by (simp add: e u v)
qed

lemma decode_utf8_char4:
  assumes "0x10000 \<le> c" "c < 0x110000"
  shows "decode_utf8_ignore (utf8_char c @ bs) = c # decode_utf8_ignore bs"
proof -
  define p q r s where "p = c div 262144" and "q = c div 4096 mod 64"
    and "r = c div 64 mod 64" and "s = c mod 64"
  have c: "c = p * 262144 + q * 4096 + r * 64 + s" and rs: "q < 64" "r < 64" "s < 64"
    unfolding p_def q_def r_def s_def by (rule digits4) simp_all
  define n1 n2 n3 n4 where "n1 = 0xF0 + p" and "n2 = 0x80 + q" and "n3 = 0x80 + r"
    and "n4 = 0x80 + s"
  have b: "0xF0 \<le> n1" "n1 < 0xF5" "0x80 \<le> n2" "n2 < 0xC0" "0x80 \<le> n3" "n3 < 0xC0"
    "0x80 \<le> n4" "n4 < 0xC0"
    using assms c rs unfolding n1_def n2_def n3_def n4_def by linarith+
  have g: "n2 < 0x90 \<Longrightarrow> n1 \<noteq> 0xF0" "\<not> n2 < 0x90 \<Longrightarrow> n1 \<noteq> 0xF4"
    using assms c rs unfolding n1_def n2_def by linarith+
  have u: "unat (of_nat n1 :: byte) = n1" "unat (of_nat n2 :: byte) = n2"
    "unat (of_nat n3 :: byte) = n3" "unat (of_nat n4 :: byte) = n4"
    using b by (simp_all add: unat_byte)
  have v: "(n1 - 0xF0) * 262144 + (n2 - 0x80) * 4096 + (n3 - 0x80) * 64 + (n4 - 0x80) = c"
    unfolding n1_def n2_def n3_def n4_def using c by simp
  have e: "utf8_char c = [of_nat n1, of_nat n2, of_nat n3, of_nat n4]"
    using assms unfolding n1_def n2_def n3_def n4_def p_def q_def r_def s_def
    by (simp add: utf8_char_def)
  have "decode_utf8_ignore (of_nat n1 # of_nat n2 # of_nat n3 # of_nat n4 # bs)
        = ((unat (of_nat n1 :: byte) - 0xF0) * 262144 + (unat (of_nat n2 :: byte) - 0x80) * 4096
           + (unat (of_nat n3 :: byte) - 0x80) * 64 + (unat (of_nat n4 :: byte) - 0x80))
          # decode_utf8_ignore bs"
    by (rule decode_seq4) (simp_all add: u b g)
  then show ?thesis by (simp add: e u v)
qed

lemma decode_utf8_char:
  assumes "c < 0x110000" "\<not> is_surrogate c"
  shows "decode_utf8_ignore (utf8_char c @ bs) = c # decode_utf8_ignore bs"
proof -
  consider "c < 0x80" | "0x80 \<le> c" "c < 0x800" | "0x800 \<le> c" "c < 0x10000" | "0x10000 \<le> c"
    by linarith
  then show ?thesis
    using assms decode_utf8_char1 decode_utf8_char2 decode_utf8_char3 decode_utf8_char4
    by cases blast+
qed

lemma decode_utf8_encode:
  "unicode_text s \<Longrightarrow> decode_utf8_ignore (concat (map utf8_char s)) = s"
proof (induction s)
  case Nil
  then show ?case by simp
next
  case (Cons c s)
  then have "c < 0x110000" "\<not> is_surrogate c" "unicode_text s"
    by (simp_all add: unicode_text_def)
  with Cons.IH decode_utf8_char[of c "concat (map utf8_char s)"] show ?case by simp
qed

lemma space_not_surrogate: "is_space c \<Longrightarrow> \<not> is_surrogate c"
  by (auto simp: is_space_def is_surrogate_def)

lemma encode_utf8_space:
  "isspace t \<Longrightarrow> encode_utf8 t = Inr (encode_utf8_ignore t)"
proof -
  assume "isspace t"
  then have a: "\<forall>c \<in> set t. \<not> is_surrogate c"
    by (auto simp: isspace_def list_all_iff space_not_surrogate)
  then have "filter (\<lambda>c. \<not> is_surrogate c) t = t" by simp
  with a show ?thesis by (simp add: encode_utf8_def encode_utf8_ignore_def list_ex_iff)
qed

lemma encode_utf8_ignore_unicode:
  "unicode_text t \<Longrightarrow> encode_utf8_ignore t = concat (map utf8_char t)"
proof -
  assume "unicode_text t"
  then have "filter (\<lambda>c. \<not> is_surrogate c) t = t" by (simp add: unicode_text_def list_all_iff)
  then show ?thesis by (simp add: encode_utf8_ignore_def)
qed

lemma length_encode_ascii:
  "c < 0x80 \<Longrightarrow> length (encode_utf8_ignore (replicate n c)) = n"
  by (induction n) (simp_all add: encode_utf8_ignore_def utf8_char_def is_surrogate_def)

section \<open>The encoder\<close>

lemma three_bytes_join:
  "push_bit 16 (take_bit 8 (drop_bit 16 v)) OR push_bit 8 (take_bit 8 (drop_bit 8 v))
     OR take_bit 8 v = take_bit 24 (v::int)"
proof (rule bit_eqI)
  fix n :: nat
  consider "n < 8" | "8 \<le> n" "n < 16" | "16 \<le> n" "n < 24" | "24 \<le> n" by linarith
  then show "bit (push_bit 16 (take_bit 8 (drop_bit 16 v))
                  OR push_bit 8 (take_bit 8 (drop_bit 8 v)) OR take_bit 8 v) n
             = bit (take_bit 24 v) n"
  proof cases
    case 1
    then show ?thesis by (simp add: bit_simps)
  next
    case 2
    then have "n - 8 < 8" by arith
    with 2 show ?thesis by (simp add: bit_simps)
  next
    case 3
    then have "n - 16 < 8" "\<not> n - 8 < 8" by arith+
    with 3 show ?thesis by (simp add: bit_simps)
  next
    case 4
    then have "\<not> n - 16 < 8" "\<not> n - 8 < 8" by arith+
    with 4 show ?thesis by (simp add: bit_simps)
  qed
qed

lemma bytes3_roundtrip:
  assumes "0 \<le> v" "v < 2 ^ 24"
  shows "bytes3_to_int (take 3 (int_to_3bytes v @ bs)) = v"
proof -
  have "take_bit 24 v = v" using assms by (simp add: take_bit_int_eq_self)
  with three_bytes_join[of v] show ?thesis
    by (simp add: bytes3_to_int_def int_to_3bytes_def uint_word_of_int_eq take_bit_eq_mask mask_eq_exp_minus_1)
qed

lemma compress_loop_step:
  "compress_loop d (t # ts) acc =
     (case token_record d t of Inl e \<Rightarrow> Inl e | Inr r \<Rightarrow> compress_loop d ts (acc @ r))"
  by (auto simp: token_record_def encode_utf8_space bytearray_append_def Let_def
           split: option.splits)

lemma compress_loop_error:
  "compress_loop d ts acc = Inl e \<Longrightarrow> e = ValueError"
proof (induction ts arbitrary: acc)
  case Nil
  then show ?case by simp
next
  case (Cons t ts)
  then show ?case
    by (auto simp: compress_loop_step token_record_def simp del: compress_loop.simps
             split: sum.splits if_splits)
qed

lemma compress_loop_fails:
  "t \<in> set ts \<Longrightarrow> token_record d t = Inl ValueError \<Longrightarrow> \<exists>e. compress_loop d ts acc = Inl e"
proof (induction ts arbitrary: acc)
  case Nil
  then show ?case by simp
next
  case (Cons a ts)
  show ?case
  proof (cases "token_record d a")
    case (Inl e)
    then show ?thesis by (simp add: compress_loop_step del: compress_loop.simps)
  next
    case (Inr r)
    with Cons.prems have "t \<in> set ts" by auto
    from Cons.IH[OF this Cons.prems(2)] Inr show ?thesis
      by (simp add: compress_loop_step del: compress_loop.simps)
  qed
qed

lemma compress_loop_acc:
  "compress_loop d ts acc =
     (case compress_loop d ts [] of Inl e \<Rightarrow> Inl e | Inr bs \<Rightarrow> Inr (acc @ bs))"
proof (induction ts arbitrary: acc)
  case Nil
  then show ?case by simp
next
  case (Cons t ts)
  show ?case
  proof (cases "token_record d t")
    case (Inl e)
    then show ?thesis by (simp add: compress_loop_step del: compress_loop.simps)
  next
    case (Inr r)
    have "compress_loop d (t # ts) acc = compress_loop d ts (acc @ r)"
      using Inr by (simp add: compress_loop_step del: compress_loop.simps)
    moreover have "compress_loop d (t # ts) [] = compress_loop d ts r"
      using Inr by (simp add: compress_loop_step del: compress_loop.simps)
    ultimately show ?thesis
      using Cons.IH[of "acc @ r"] Cons.IH[of r]
      by (cases "compress_loop d ts []") simp_all
  qed
qed

lemma token_record_complete:
  assumes "token_record d t = Inr r"
  shows "complete_records r"
proof (cases "isspace t \<or> map_of d t = None")
  case True
  with assms have n: "length (encode_utf8_ignore t) < 256"
    and r: "r = (if isspace t then 2 else 0) # of_nat (length (encode_utf8_ignore t))
                # encode_utf8_ignore t"
    by (auto simp: token_record_def split: if_splits)
  from n have "unat (of_nat (length (encode_utf8_ignore t)) :: byte) = length (encode_utf8_ignore t)"
    by (rule unat_byte)
  with r show ?thesis by simp
next
  case False
  with assms have "r = 1 # int_to_3bytes (the (map_of d t))"
    by (auto simp: token_record_def)
  then show ?thesis by (simp add: int_to_3bytes_def)
qed

lemma encoder_record_boundaries:
  "compress_loop d (ts1 @ ts2) [] = Inr bs \<Longrightarrow>
   \<exists>pre rest. compress_loop d ts1 [] = Inr pre \<and> compress_loop d ts2 [] = Inr rest
              \<and> bs = pre @ rest \<and> complete_records pre"
proof (induction ts1 arbitrary: bs)
  case Nil
  then show ?case by simp
next
  case (Cons t ts1)
  from Cons.prems obtain r where r: "token_record d t = Inr r"
    by (cases "token_record d t") (simp_all add: compress_loop_step del: compress_loop.simps)
  have step: "compress_loop d (t # ts) [] = compress_loop d ts r" for ts
    using r by (simp add: compress_loop_step del: compress_loop.simps)
  from Cons.prems have "compress_loop d (ts1 @ ts2) r = Inr bs" by (simp add: step del: compress_loop.simps)
  then obtain bs' where bs': "compress_loop d (ts1 @ ts2) [] = Inr bs'" "bs = r @ bs'"
    using compress_loop_acc[of d "ts1 @ ts2" r] by (auto split: sum.splits)
  from Cons.IH[OF bs'(1)] obtain pre rest where p: "compress_loop d ts1 [] = Inr pre"
    "compress_loop d ts2 [] = Inr rest" "bs' = pre @ rest" "complete_records pre" by blast
  have "compress_loop d (t # ts1) [] = Inr (r @ pre)"
    using p(1) compress_loop_acc[of d ts1 r] by (simp add: step del: compress_loop.simps)
  moreover have "complete_records (r @ pre)"
    using token_record_complete[OF r] p(4) by (rule complete_records_append)
  ultimately show ?case using p(2,3) bs'(2) by simp
qed

lemma findall_space_run:
  "is_space c \<Longrightarrow> findall (replicate (Suc n) c) = [replicate (Suc n) c]"
  by simp

lemma findall_word_run:
  "\<not> is_space c \<Longrightarrow> findall (replicate (Suc n) c) = [replicate (Suc n) c]"
  by simp

text \<open>
  C2 (amended). A token whose UTF-8 encoding is longer than 255 bytes is not cut to 255
  bytes: when it is written as a literal (a whitespace run, or a word that is not in the
  dictionary), \<open>result.append(len(...))\<close> raises \<open>ValueError\<close> and the encoder returns no
  bytes at all.
\<close>

theorem oversized_literal_raises:
  assumes "t \<in> set (findall text)"
    and "isspace t \<or> map_of dictionary t = None"
    and "length (encode_utf8_ignore t) > 255"
  shows "compress_text_with_dictionary text dictionary = Inl ValueError"
proof -
  have "token_record dictionary t = Inl ValueError"
    using assms(2,3) by (simp add: token_record_def)
  with assms(1) obtain e where "compress_loop dictionary (findall text) [] = Inl e"
    using compress_loop_fails by blast
  then show ?thesis
    using compress_loop_error by (fastforce simp: compress_text_with_dictionary_def)
qed

theorem oversized_literal_raises_witness:
  "compress_text_with_dictionary (replicate 256 0x61) [([0x61], 0)] = Inl ValueError"
proof -
  have sp: "\<not> is_space 0x61" by (simp add: is_space_def)
  have r: "replicate 256 (0x61::nat) = replicate (Suc 255) 0x61" by simp
  have f: "findall (replicate 256 0x61) = [replicate 256 0x61]"
    unfolding r using sp by (rule findall_word_run)
  have h1: "replicate 256 0x61 \<in> set (findall (replicate 256 0x61))"
    by (simp add: f)
  have "length (replicate 256 (0x61::nat)) \<noteq> length [0x61::nat]" by simp
  then have "replicate 256 (0x61::nat) \<noteq> [0x61]" by metis
  then have h2: "isspace (replicate 256 (0x61::nat))
                 \<or> map_of [([0x61::nat], 0::int)] (replicate 256 0x61) = None"
    by simp
  have h3: "length (encode_utf8_ignore (replicate 256 0x61)) > 255"
    by (simp add: length_encode_ascii)
  show ?thesis by (rule oversized_literal_raises[OF h1 h2 h3])
qed

text \<open>
  The claim as stated fails: 300 spaces are not encoded as tag 2, length byte 255 and
  255 spaces; the encoder raises.
\<close>

theorem oversized_whitespace_counterexample:
  "compress_text_with_dictionary (replicate 300 0x20) [] = Inl ValueError
   \<and> compress_text_with_dictionary (replicate 300 0x20) []
       \<noteq> Inr (2 # 255 # replicate 255 0x20)"
proof -
  have sp: "is_space 0x20" by (simp add: is_space_def)
  have r: "replicate 300 (0x20::nat) = replicate (Suc 299) 0x20" by simp
  have f: "findall (replicate 300 0x20) = [replicate 300 0x20]"
    unfolding r using sp by (rule findall_space_run)
  have i: "isspace (replicate 300 0x20)"
    using sp by (simp add: isspace_def list_all_iff)
  have l: "length (encode_utf8_ignore (replicate 300 0x20)) = 300"
    by (rule length_encode_ascii) simp
  have "token_record [] (replicate 300 0x20) = Inl ValueError"
    using i l by (simp add: token_record_def)
  then have "compress_text_with_dictionary (replicate 300 0x20) [] = Inl ValueError"
    by (simp add: compress_text_with_dictionary_def f compress_loop_step del: compress_loop.simps)
  then show ?thesis by simp
qed

section \<open>Round trip\<close>

lemma token_record_decode:
  assumes "token_record d t = Inr r" and "unicode_text t"
    and "\<And>code. map_of d t = Some code \<Longrightarrow> 0 \<le> code \<and> code < 2 ^ 24 \<and> rd code = Some t"
    and "\<not> isspace t \<Longrightarrow> map_of d t = None \<Longrightarrow> True"
  shows "decode_bytes rd r = [t]"
proof (cases "isspace t \<or> map_of d t = None")
  case True
  with assms(1) have n: "length (encode_utf8_ignore t) < 256"
    and r: "r = (if isspace t then 2 else 0) # of_nat (length (encode_utf8_ignore t))
                # encode_utf8_ignore t"
    by (auto simp: token_record_def split: if_splits)
  from n have u: "unat (of_nat (length (encode_utf8_ignore t)) :: byte) = length (encode_utf8_ignore t)"
    by (rule unat_byte)
  have "decode_utf8_ignore (encode_utf8_ignore t) = t"
    using assms(2) by (simp add: encode_utf8_ignore_unicode decode_utf8_encode)
  with r u show ?thesis by simp
next
  case False
  then obtain code where c: "map_of d t = Some code" by auto
  with False assms(1) have r: "r = 1 # int_to_3bytes code"
    by (auto simp: token_record_def)
  from assms(3)[OF c] have p: "0 \<le> code" "code < 2 ^ 24" "rd code = Some t" by simp_all
  have "bytes3_to_int (take 3 (int_to_3bytes code @ [])) = code"
    using p(1,2) by (rule bytes3_roundtrip)
  moreover have "length (int_to_3bytes code) = 3" by (simp add: int_to_3bytes_def)
  ultimately show ?thesis using r p(3) by simp
qed

lemma compress_loop_roundtrip:
  assumes dict: "\<And>t code. map_of d t = Some code \<Longrightarrow>
                   0 \<le> code \<and> code < 2 ^ 24 \<and> rd code = Some t"
  shows "(\<forall>t \<in> set ts. unicode_text t \<and> length (encode_utf8_ignore t) \<le> 255) \<Longrightarrow>
         \<exists>bs. compress_loop d ts acc = Inr (acc @ bs) \<and> complete_records bs
               \<and> decode_bytes rd bs = ts"
proof (induction ts arbitrary: acc)
  case Nil
  then show ?case by simp
next
  case (Cons t ts)
  then have ut: "unicode_text t" and len: "length (encode_utf8_ignore t) \<le> 255" by simp_all
  from len have "\<exists>r. token_record d t = Inr r"
    by (simp add: token_record_def)
  then obtain r where r: "token_record d t = Inr r" ..
  have cr: "complete_records r" using r by (rule token_record_complete)
  have dr: "decode_bytes rd r = [t]"
    using r ut dict by (rule token_record_decode) simp_all
  from Cons obtain bs where bs: "compress_loop d ts (acc @ r) = Inr ((acc @ r) @ bs)"
    "complete_records bs" "decode_bytes rd bs = ts"
    by fastforce
  have "compress_loop d (t # ts) acc = Inr (acc @ (r @ bs))"
    using r bs(1) by (simp add: compress_loop_step del: compress_loop.simps)
  moreover have "complete_records (r @ bs)" using cr bs(2) by (rule complete_records_append)
  moreover have "decode_bytes rd (r @ bs) = t # ts"
    using cr dr bs(3) by (simp add: decode_bytes_append)
  ultimately show ?case by blast
qed

lemma unicode_text_tokens:
  "unicode_text s \<Longrightarrow> t \<in> set (findall s) \<Longrightarrow> unicode_text t"
  using findall_subset[of t s] by (auto simp: unicode_text_def list_all_iff)

lemma loaded_dictionary_ids:
  assumes "load_dictionary_from_file file max_lines = Some d" and "max_lines \<le> default_max_lines"
    and "map_of d t = Some code"
  shows "0 \<le> code \<and> code < 2 ^ 24 \<and> reverse_dict d code = Some t"
proof -
  from assms(1) obtain f where d: "d = load_loop max_lines 0 f []"
    by (auto simp: load_dictionary_from_file_def split: option.splits)
  have "dict_inv 0 []" by (simp add: dict_inv_def)
  then have inv: "dict_inv max_lines d" unfolding d by (rule load_loop_inv) simp
  have "code \<in> snd ` set d" using assms(3) by (force dest: map_of_SomeD)
  with inv have "0 \<le> code" "code < int max_lines" by (auto simp: dict_inv_def)
  moreover have "int max_lines \<le> 2 ^ 24" using assms(2) by (simp add: default_max_lines_def)
  moreover have "reverse_dict d code = Some t"
    using inv assms(3) by (simp add: dict_inv_def reverse_dict_inverse)
  ultimately show ?thesis by simp
qed

text \<open>
  C1. For a dictionary loaded by \<open>load_dictionary_from_file\<close> with at most the default
  \<open>2 ^ 24\<close> lines read, and a text whose tokens each have a UTF-8 encoding of at most 255
  bytes, the encoder succeeds and decoding its output with the same dictionary gives the
  text back. Having a UTF-8 encoding means that the text holds no lone surrogate
  (\<open>unicode_text\<close>); the program reads its text from a file decoded as UTF-8, which never
  gives one.
\<close>

theorem document_roundtrip:
  assumes "load_dictionary_from_file file max_lines = Some dictionary"
    and "max_lines \<le> default_max_lines"
    and "unicode_text text"
    and "\<forall>t \<in> set (findall text). length (encode_utf8_ignore t) \<le> 255"
  shows "\<exists>data. compress_text_with_dictionary text dictionary = Inr data
           \<and> decompress_text_with_dictionary data dictionary = Some text"
proof -
  have toks: "\<forall>t \<in> set (findall text). unicode_text t \<and> length (encode_utf8_ignore t) \<le> 255"
    using assms(3,4) unicode_text_tokens by blast
  have "\<exists>bs. compress_loop dictionary (findall text) [] = Inr ([] @ bs) \<and> complete_records bs
              \<and> decode_bytes (reverse_dict dictionary) bs = findall text"
    using loaded_dictionary_ids[OF assms(1,2)] toks by (rule compress_loop_roundtrip)
  then show ?thesis
    by (auto simp: compress_text_with_dictionary_def decompress_eq findall_concat)
qed

theorem document_roundtrip_witness:
  "\<exists>data. compress_text_with_dictionary
            [0x74, 0x68, 0x65, 0x20, 0x71, 0x75, 0x69, 0x63, 0x6B, 0x20, 0x62, 0x72, 0x6F, 0x77,
             0x6E, 0x20, 0x66, 0x6F, 0x78]
            [([0x74, 0x68, 0x65], 0), ([0x71, 0x75, 0x69, 0x63, 0x6B], 1), ([0x66, 0x6F, 0x78], 2)]
           = Inr data
         \<and> decompress_text_with_dictionary data
            [([0x74, 0x68, 0x65], 0), ([0x71, 0x75, 0x69, 0x63, 0x6B], 1), ([0x66, 0x6F, 0x78], 2)]
           = Some [0x74, 0x68, 0x65, 0x20, 0x71, 0x75, 0x69, 0x63, 0x6B, 0x20, 0x62, 0x72, 0x6F,
                   0x77, 0x6E, 0x20, 0x66, 0x6F, 0x78]"
proof -
  have h1: "load_dictionary_from_file
              (Some [[0x74, 0x68, 0x65, 0x0A], [0x71, 0x75, 0x69, 0x63, 0x6B, 0x0A],
                     [0x66, 0x6F, 0x78, 0x0A]]) default_max_lines
            = Some [([0x74, 0x68, 0x65], 0), ([0x71, 0x75, 0x69, 0x63, 0x6B], 1),
                    ([0x66, 0x6F, 0x78], 2)]"
    by (simp add: load_dictionary_from_file_def default_max_lines_def strip_def split.simps
          is_space_def)
  have h2: "default_max_lines \<le> default_max_lines" by simp
  have h3: "unicode_text [0x74, 0x68, 0x65, 0x20, 0x71, 0x75, 0x69, 0x63, 0x6B, 0x20, 0x62, 0x72,
                          0x6F, 0x77, 0x6E, 0x20, 0x66, 0x6F, 0x78]"
    by (simp add: unicode_text_def is_surrogate_def)
  have h4: "\<forall>t \<in> set (findall [0x74, 0x68, 0x65, 0x20, 0x71, 0x75, 0x69, 0x63, 0x6B, 0x20, 0x62,
                                0x72, 0x6F, 0x77, 0x6E, 0x20, 0x66, 0x6F, 0x78]).
               length (encode_utf8_ignore t) \<le> 255"
    by (simp add: is_space_def encode_utf8_ignore_def is_surrogate_def utf8_char_def)
  show ?thesis by (rule document_roundtrip[OF h1 h2 h3 h4])
qed

text \<open>
  Outside that domain: a lone surrogate is left out by \<open>encode('utf-8', errors='ignore')\<close>
  and does not come back.
\<close>

lemma lone_surrogate_dropped:
  "compress_text_with_dictionary [0xD800] [] = Inr [0, 0]
   \<and> decompress_text_with_dictionary [0, 0] [] = Some []"
  by (simp add: compress_text_with_dictionary_def is_space_def isspace_def
        encode_utf8_ignore_def is_surrogate_def bytearray_append_def decompress_eq)

end
